theory Spec2Isabelle
  imports Complex_Main
begin

section \<open>Floating-point values\<close>

text \<open>
  \<^verbatim>\<open>FloatingPoint\<close> (\<^verbatim>\<open>fl::Real\<close>, a C++ \<^verbatim>\<open>double\<close>) is modelled as an exact real
  number extended by the three IEEE 754 special values. Operations on finite values are
  exact (rounding, overflow and signed zeros are not modelled); operations that involve a
  special value follow IEEE 754: \<open>\<infinity> - \<infinity>\<close>, \<open>0 * \<infinity>\<close>, \<open>0 / 0\<close> and \<open>\<infinity> / \<infinity>\<close> are NaN, NaN
  propagates through every operation, and every comparison with NaN is false. Where a
  statement depends on what rounding leaves, the rounded belief is given as a value, every
  double written as the rational it is.
\<close>

datatype fp = is_Fin: Fin (the_fin: real) | PInf | NInf | NaN

fun fp_neg :: "fp \<Rightarrow> fp" where
  "fp_neg (Fin a) = Fin (- a)"
| "fp_neg PInf = NInf"
| "fp_neg NInf = PInf"
| "fp_neg NaN = NaN"

fun fp_add :: "fp \<Rightarrow> fp \<Rightarrow> fp" where
  "fp_add (Fin a) (Fin b) = Fin (a + b)"
| "fp_add NaN y = NaN"
| "fp_add x NaN = NaN"
| "fp_add PInf NInf = NaN"
| "fp_add NInf PInf = NaN"
| "fp_add PInf y = PInf"
| "fp_add x PInf = PInf"
| "fp_add NInf y = NInf"
| "fp_add x NInf = NInf"

definition fp_sub :: "fp \<Rightarrow> fp \<Rightarrow> fp" where
  "fp_sub x y = fp_add x (fp_neg y)"

text \<open>The sign of a value that is not NaN: \<open>1\<close>, \<open>0\<close> or \<open>-1\<close>.\<close>

fun fp_sgn :: "fp \<Rightarrow> real" where
  "fp_sgn (Fin a) = sgn a"
| "fp_sgn PInf = 1"
| "fp_sgn NInf = - 1"
| "fp_sgn NaN = 0"

definition fp_inf :: "real \<Rightarrow> fp" where
  "fp_inf s = (if s = 0 then NaN else if 0 < s then PInf else NInf)"

fun fp_mul :: "fp \<Rightarrow> fp \<Rightarrow> fp" where
  "fp_mul (Fin a) (Fin b) = Fin (a * b)"
| "fp_mul NaN y = NaN"
| "fp_mul x NaN = NaN"
| "fp_mul x y = fp_inf (fp_sgn x * fp_sgn y)"

fun fp_div :: "fp \<Rightarrow> fp \<Rightarrow> fp" where
  "fp_div (Fin a) (Fin b) = (if b = 0 then fp_inf (sgn a) else Fin (a / b))"
| "fp_div NaN y = NaN"
| "fp_div x NaN = NaN"
| "fp_div (Fin a) y = Fin 0"
| "fp_div x (Fin b) = fp_inf (fp_sgn x * (if b < 0 then - 1 else 1))"
| "fp_div x y = NaN"

fun fp_exp :: "fp \<Rightarrow> fp" where
  "fp_exp (Fin a) = Fin (exp a)"
| "fp_exp PInf = PInf"
| "fp_exp NInf = Fin 0"
| "fp_exp NaN = NaN"

fun fp_log :: "fp \<Rightarrow> fp" where
  "fp_log (Fin a) = (if 0 < a then Fin (ln a) else if a = 0 then NInf else NaN)"
| "fp_log PInf = PInf"
| "fp_log NInf = NaN"
| "fp_log NaN = NaN"

fun fp_less :: "fp \<Rightarrow> fp \<Rightarrow> bool" where
  "fp_less (Fin a) (Fin b) = (a < b)"
| "fp_less NaN y = False"
| "fp_less x NaN = False"
| "fp_less NInf NInf = False"
| "fp_less NInf y = True"
| "fp_less x PInf = (x \<noteq> PInf)"
| "fp_less x y = False"

section \<open>Eigen and standard-library operations\<close>

text \<open>
  The source contains no \<^verbatim>\<open>throw\<close>. What can go wrong is a failed Eigen assertion
  (a reduction over an empty array, a coefficient-wise operation on arrays of different
  sizes, an index outside the array) or an out-of-range read of a \<^verbatim>\<open>std::vector\<close>.
  Each is a value of \<open>error\<close>.
\<close>

datatype error = EmptyMatrix | SizeMismatch | IndexOutOfRange

text \<open>
  \<^verbatim>\<open>maxCoeff()\<close>: Eigen asserts that the array is not empty and reduces it from the first
  coefficient with \<^verbatim>\<open>std::max\<close>, which is \<^verbatim>\<open>(a < b) ? b : a\<close>.
\<close>

definition std_max :: "fp \<Rightarrow> fp \<Rightarrow> fp" where
  "std_max a b = (if fp_less a b then b else a)"

definition maxCoeff :: "fp list \<Rightarrow> error + fp" where
  "maxCoeff xs = (case xs of [] \<Rightarrow> Inl EmptyMatrix | x # ys \<Rightarrow> Inr (foldl std_max x ys))"

text \<open>\<^verbatim>\<open>sum()\<close>: zero on an empty array, otherwise the reduction from the first coefficient.\<close>

definition fp_sum :: "fp list \<Rightarrow> fp" where
  "fp_sum xs = (case xs of [] \<Rightarrow> Fin 0 | x # ys \<Rightarrow> foldl fp_add x ys)"

text \<open>
  \<^verbatim>\<open>cwiseProduct\<close> and \<^verbatim>\<open>operator+\<close> on two arrays: Eigen asserts that the sizes agree.
\<close>

definition cwise :: "(fp \<Rightarrow> fp \<Rightarrow> fp) \<Rightarrow> fp list \<Rightarrow> fp list \<Rightarrow> error + fp list" where
  "cwise f xs ys = (if length xs = length ys then Inr (map2 f xs ys) else Inl SizeMismatch)"

text \<open>
  \<^verbatim>\<open>resize(n)\<close> of a dynamic Eigen array: nothing happens when the size is already \<open>n\<close>;
  otherwise the storage is released and \<open>n\<close> default-constructed elements are allocated
  (the old contents are lost). \<^const>\<open>default\<close> stands for the default-constructed
  \<^verbatim>\<open>Variate\<close>.
\<close>

definition resize :: "'v::default list \<Rightarrow> nat \<Rightarrow> 'v list" where
  "resize xs n = (if length xs = n then xs else replicate n default)"

text \<open>
  \<^verbatim>\<open>std::lower_bound(first, last, value)\<close>: the position of the first element \<open>c\<close> of
  the range for which \<^verbatim>\<open>c < value\<close> is false, the length of the range when there is none.
\<close>

definition lower_bound :: "fp list \<Rightarrow> fp \<Rightarrow> nat" where
  "lower_bound cs u = length (takeWhile (\<lambda>c. fp_less c u) cs)"

section \<open>DiscreteDistribution\<close>

record 'v discrete_distribution =
  locations :: "'v list"
  log_prob_mass :: "fp list"
  prob_mass :: "fp list"
  cumul_distr :: "fp list"

text \<open>
  The constructor: one location \<^verbatim>\<open>Variate::Zero(dim)\<close> (the argument \<open>zero\<close>), one
  log-mass \<open>0\<close>, the cumulative table \<open>[1]\<close>. The member \<^verbatim>\<open>prob_mass_\<close> is not assigned and
  stays the default-constructed, empty array.
\<close>

definition DiscreteDistribution :: "'v \<Rightarrow> 'v discrete_distribution" where
  "DiscreteDistribution zero =
     \<lparr> locations = [zero], log_prob_mass = [Fin 0], prob_mass = [], cumul_distr = [Fin 1] \<rparr>"

definition size_dd :: "'v discrete_distribution \<Rightarrow> nat" where
  "size_dd d = length (locations d)"

text \<open>
  The loop that computes the cdf: \<^verbatim>\<open>cumul_distr_[i] = cumul_distr_[i-1] + prob_mass_[i]\<close>
  for \<open>i \<ge> 1\<close>; \<open>acc\<close> is \<^verbatim>\<open>cumul_distr_[i-1]\<close>.
\<close>

fun cdf_loop :: "fp \<Rightarrow> fp list \<Rightarrow> fp list" where
  "cdf_loop acc [] = []"
| "cdf_loop acc (p # ps) = fp_add acc p # cdf_loop (fp_add acc p) ps"

definition compute_cdf :: "fp list \<Rightarrow> error + fp list" where
  "compute_cdf ps = (case ps of [] \<Rightarrow> Inl IndexOutOfRange | p # qs \<Rightarrow> Inr (p # cdf_loop p qs))"

definition log_unnormalized_prob_mass ::
  "'v::default discrete_distribution \<Rightarrow> fp list \<Rightarrow> error + 'v discrete_distribution" where
  "log_unnormalized_prob_mass d lpm =
     (case maxCoeff lpm of
        Inl e \<Rightarrow> Inl e
      | Inr m \<Rightarrow>
          let lp0 = map (\<lambda>x. fp_sub x m) lpm;
              pm0 = map fp_exp lp0;
              s = fp_sum pm0;
              pm = map (\<lambda>x. fp_div x s) pm0;
              lp = map (\<lambda>x. fp_sub x (fp_log s)) lp0
          in (case compute_cdf pm of
                Inl e \<Rightarrow> Inl e
              | Inr cd \<Rightarrow>
                  Inr \<lparr> locations = resize (locations d) (length lp),
                        log_prob_mass = lp, prob_mass = pm, cumul_distr = cd \<rparr>))"

definition delta_log_prob_mass ::
  "'v::default discrete_distribution \<Rightarrow> fp list \<Rightarrow> error + 'v discrete_distribution" where
  "delta_log_prob_mass d delta =
     (case cwise fp_add (log_prob_mass d) delta of
        Inl e \<Rightarrow> Inl e
      | Inr lpm \<Rightarrow> log_unnormalized_prob_mass d lpm)"

definition set_uniform ::
  "'v::default discrete_distribution \<Rightarrow> nat \<Rightarrow> error + 'v discrete_distribution" where
  "set_uniform d new_size = log_unnormalized_prob_mass d (replicate new_size (Fin 0))"

definition map_standard_uniform :: "'v discrete_distribution \<Rightarrow> fp \<Rightarrow> error + 'v" where
  "map_standard_uniform d uniform_sample =
     (let index = lower_bound (cumul_distr d) uniform_sample
      in if index < length (locations d) then Inr (locations d ! index)
         else Inl IndexOutOfRange)"

text \<open>
  \<^verbatim>\<open>map_standard_normal\<close> computes \<^verbatim>\<open>0.5 * (1.0 + std::erf(gaussian_sample / std::sqrt(2.0)))\<close>;
  the function \<open>cdf\<close> stands for that computation.
\<close>

definition map_standard_normal ::
  "(fp \<Rightarrow> fp) \<Rightarrow> 'v discrete_distribution \<Rightarrow> fp \<Rightarrow> error + 'v" where
  "map_standard_normal cdf d gaussian_sample = map_standard_uniform d (cdf gaussian_sample)"

definition entropy :: "'v discrete_distribution \<Rightarrow> error + fp" where
  "entropy d =
     (case cwise fp_mul (log_prob_mass d) (prob_mass d) of
        Inl e \<Rightarrow> Inl e
      | Inr xs \<Rightarrow> Inr (fp_neg (fp_sum xs)))"

definition kl_given_uniform :: "'v discrete_distribution \<Rightarrow> error + fp" where
  "kl_given_uniform d =
     (case entropy d of
        Inl e \<Rightarrow> Inl e
      | Inr h \<Rightarrow> Inr (fp_sub (fp_log (Fin (real (size_dd d)))) h))"

text \<open>
  Modelled from the spec: \<^verbatim>\<open>sample()\<close> is inherited from
  \<^verbatim>\<open>fl/distribution/interface/standard_gaussian_mapping.hpp\<close>, which is not among the
  sources. The spec describes one draw as "invoke a uniform-random draw in [0,1), map
  through source's inverse-CDF to obtain a location". The argument \<open>u\<close> is that uniform
  draw.
\<close>

definition sample :: "'v discrete_distribution \<Rightarrow> fp \<Rightarrow> error + 'v" where
  "sample d u = map_standard_uniform d u"

subsection \<open>Objects and references\<close>

text \<open>
  The filter passes beliefs by reference, and \<^verbatim>\<open>predict_and_update\<close> passes the same
  object as the source and as the target of \<^verbatim>\<open>update\<close>. A store maps every reference
  to the object it denotes; two references alias when they are equal.
\<close>

type_synonym ref = nat

type_synonym 'v store = "ref \<Rightarrow> 'v discrete_distribution"

text \<open>
  The loop of \<^verbatim>\<open>from_distribution\<close> that fills the local array \<^verbatim>\<open>new_locations\<close>; the
  \<open>i\<close>-th call of \<^verbatim>\<open>sample()\<close> consumes the draw \<open>us i\<close>.
\<close>

fun sample_loop :: "'v discrete_distribution \<Rightarrow> (nat \<Rightarrow> fp) \<Rightarrow> nat list \<Rightarrow> error + 'v list" where
  "sample_loop d us [] = Inr []"
| "sample_loop d us (i # js) =
     (case sample d (us i) of
        Inl e \<Rightarrow> Inl e
      | Inr x \<Rightarrow>
          (case sample_loop d us js of
             Inl e \<Rightarrow> Inl e
           | Inr xs \<Rightarrow> Inr (x # xs)))"

definition from_distribution ::
  "'v::default store \<Rightarrow> ref \<Rightarrow> ref \<Rightarrow> nat \<Rightarrow> (nat \<Rightarrow> fp) \<Rightarrow> error + 'v store" where
  "from_distribution h this distribution new_size us =
     (case sample_loop (h distribution) us [0..<new_size] of
        Inl e \<Rightarrow> Inl e
      | Inr new_locations \<Rightarrow>
          (case set_uniform (h this) new_size of
             Inl e \<Rightarrow> Inl e
           | Inr d \<Rightarrow> Inr (h(this := d\<lparr>locations := new_locations\<rparr>))))"

section \<open>ParticleFilter\<close>

text \<open>
  The process model and the observation model are used through one function each,
  \<^verbatim>\<open>process_model_.state\<close> and \<^verbatim>\<open>obsrv_model_.log_probabilities\<close>. The noise generator
  is a stream of draws handed to \<^verbatim>\<open>predict\<close>: the \<open>i\<close>-th call of
  \<^verbatim>\<open>process_noise_.sample()\<close> returns \<open>noise i\<close>.
\<close>

record ('state, 'noise, 'input, 'obsrv) particle_filter =
  process_model_state :: "'state \<Rightarrow> 'noise \<Rightarrow> 'input \<Rightarrow> 'state"
  obsrv_model_log_probabilities :: "'obsrv \<Rightarrow> 'state list \<Rightarrow> fp list"
  max_kl_divergence :: fp

definition predict_step ::
  "('s, 'n, 'i, 'o) particle_filter \<Rightarrow> ref \<Rightarrow> 'i \<Rightarrow> ref \<Rightarrow> (nat \<Rightarrow> 'n) \<Rightarrow> nat \<Rightarrow> 's store \<Rightarrow> 's store" where
  "predict_step f prior_belief input predicted_belief noise i h =
     h(predicted_belief := (h predicted_belief)
         \<lparr>locations := (locations (h predicted_belief))
            [i := process_model_state f (locations (h prior_belief) ! i) (noise i) input]\<rparr>)"

definition predict ::
  "('s, 'n, 'i, 'o) particle_filter \<Rightarrow> 's store \<Rightarrow> ref \<Rightarrow> 'i \<Rightarrow> ref \<Rightarrow> (nat \<Rightarrow> 'n) \<Rightarrow> 's store" where
  "predict f h prior_belief input predicted_belief noise =
     (let h1 = h(predicted_belief := h prior_belief)
      in fold (predict_step f prior_belief input predicted_belief noise)
           [0..<size_dd (h1 predicted_belief)] h1)"

text \<open>The \<^verbatim>\<open>if\<close>/\<^verbatim>\<open>else\<close> of \<^verbatim>\<open>update\<close>: resample, or copy the predicted belief.\<close>

definition resample_step ::
  "('s::default, 'n, 'i, 'o) particle_filter \<Rightarrow> 's store \<Rightarrow> ref \<Rightarrow> ref \<Rightarrow> (nat \<Rightarrow> fp) \<Rightarrow> error + 's store" where
  "resample_step f h predicted_belief posterior_belief us =
     (case kl_given_uniform (h predicted_belief) of
        Inl e \<Rightarrow> Inl e
      | Inr kl \<Rightarrow>
          if fp_less (max_kl_divergence f) kl
          then from_distribution h posterior_belief predicted_belief
                 (size_dd (h predicted_belief)) us
          else Inr (h(posterior_belief := h predicted_belief)))"

definition update ::
  "('s::default, 'n, 'i, 'o) particle_filter \<Rightarrow> 's store \<Rightarrow> ref \<Rightarrow> 'o \<Rightarrow> ref \<Rightarrow> (nat \<Rightarrow> fp) \<Rightarrow> error + 's store" where
  "update f h predicted_belief obsrv posterior_belief us =
     (case resample_step f h predicted_belief posterior_belief us of
        Inl e \<Rightarrow> Inl e
      | Inr h1 \<Rightarrow>
          (case delta_log_prob_mass (h1 posterior_belief)
                  (obsrv_model_log_probabilities f obsrv (locations (h1 predicted_belief))) of
             Inl e \<Rightarrow> Inl e
           | Inr d \<Rightarrow> Inr (h1(posterior_belief := d))))"

definition predict_and_update ::
  "('s::default, 'n, 'i, 'o) particle_filter \<Rightarrow> 's store \<Rightarrow> ref \<Rightarrow> 'i \<Rightarrow> 'o \<Rightarrow> ref \<Rightarrow>
     (nat \<Rightarrow> 'n) \<Rightarrow> (nat \<Rightarrow> fp) \<Rightarrow> error + 's store" where
  "predict_and_update f h prior_belief input observation posterior_belief noise us =
     update f (predict f h prior_belief input posterior_belief noise)
       posterior_belief observation posterior_belief us"

section \<open>Properties of a belief\<close>

fun fp_le :: "fp \<Rightarrow> fp \<Rightarrow> bool" where
  "fp_le (Fin a) (Fin b) = (a \<le> b)"
| "fp_le NaN y = False"
| "fp_le x NaN = False"
| "fp_le NInf y = True"
| "fp_le x PInf = True"
| "fp_le x y = False"

text \<open>
  The invariants the specification states for a particle set: the four sequences have one
  size, the weights sum to one, the cumulative weights do not decrease.
\<close>

definition invariant :: "'v discrete_distribution \<Rightarrow> bool" where
  "invariant d \<longleftrightarrow>
     length (locations d) = length (log_prob_mass d) \<and>
     length (log_prob_mass d) = length (prob_mass d) \<and>
     length (prob_mass d) = length (cumul_distr d) \<and>
     fp_sum (prob_mass d) = Fin 1 \<and>
     sorted_wrt fp_le (cumul_distr d)"

text \<open>
  A belief is normalized when it has finite log-weights, weights that are exactly their
  exponentials and sum to exactly one, the cumulative table of these weights, and one
  location for each weight. In exact arithmetic this is what
  \<^const>\<open>log_unnormalized_prob_mass\<close> leaves for finite log-masses. A belief with a
  weight \<open>0\<close> (a log-weight \<open>-\<infinity>\<close>), a belief that holds NaN, a freshly constructed belief
  and a belief whose sums were rounded are not normalized.
\<close>

definition normalized :: "'v discrete_distribution \<Rightarrow> bool" where
  "normalized d \<longleftrightarrow>
     log_prob_mass d \<noteq> [] \<and>
     list_all is_Fin (log_prob_mass d) \<and>
     prob_mass d = map fp_exp (log_prob_mass d) \<and>
     fp_sum (prob_mass d) = Fin 1 \<and>
     compute_cdf (prob_mass d) = Inr (cumul_distr d) \<and>
     length (locations d) = length (log_prob_mass d)"

text \<open>The softmax of a vector of reals, \<open>exp (v\<^sub>i) / \<Sum>\<^sub>j exp (v\<^sub>j)\<close>.\<close>

definition softmax :: "real list \<Rightarrow> real list" where
  "softmax v = map (\<lambda>x. exp x / sum_list (map exp v)) v"

text \<open>The running sums \<open>w\<^sub>0\<close>, \<open>w\<^sub>0 + w\<^sub>1\<close>, \<dots> of a list of reals.\<close>

definition running_sums :: "real list \<Rightarrow> real list" where
  "running_sums ws = map (\<lambda>i. sum_list (take (Suc i) ws)) [0..<length ws]"

text \<open>A uniform draw from the interval \<open>[0, 1)\<close>.\<close>

definition unit_draw :: "fp \<Rightarrow> bool" where
  "unit_draw u \<longleftrightarrow> is_Fin u \<and> 0 \<le> the_fin u \<and> the_fin u < 1"

text \<open>
  What sampling reads of a belief: a cumulative table that is not empty, has one entry for
  each location, holds finite values and does not decrease. Nothing is asked of the
  weights, of the log-weights or of the last entry.
\<close>

definition cdf_table :: "'v discrete_distribution \<Rightarrow> bool" where
  "cdf_table d \<longleftrightarrow>
     cumul_distr d \<noteq> [] \<and>
     length (cumul_distr d) = length (locations d) \<and>
     list_all is_Fin (cumul_distr d) \<and>
     sorted_wrt fp_le (cumul_distr d)"


section \<open>A one-dimensional example\<close>

text \<open>
  States, inputs, noise and observations are reals; a default-constructed state is \<open>0\<close>.
\<close>

instantiation real :: default
begin

definition default_real :: real where
  "default_real = 0"

instance ..

end

text \<open>Four particles with equal weights.\<close>

definition four_particles :: "real discrete_distribution" where
  "four_particles =
     \<lparr> locations = [10, 20, 30, 40],
       log_prob_mass = [Fin (ln (1 / 4)), Fin (ln (1 / 4)), Fin (ln (1 / 4)), Fin (ln (1 / 4))],
       prob_mass = [Fin (1 / 4), Fin (1 / 4), Fin (1 / 4), Fin (1 / 4)],
       cumul_distr = [Fin (1 / 4), Fin (1 / 2), Fin (3 / 4), Fin 1] \<rparr>"

text \<open>Four draws of the resampling generator.\<close>

definition resampling_draws :: "nat \<Rightarrow> fp" where
  "resampling_draws i =
     (if i = 0 then Fin (1 / 10) else if i = 1 then Fin (2 / 10)
      else if i = 2 then Fin (9 / 10) else Fin (3 / 10))"

text \<open>Two particles, three quarters of the mass on the first.\<close>

definition skewed_particles :: "real discrete_distribution" where
  "skewed_particles =
     \<lparr> locations = [10, 20],
       log_prob_mass = [Fin (ln (3 / 4)), Fin (ln (1 / 4))],
       prob_mass = [Fin (3 / 4), Fin (1 / 4)],
       cumul_distr = [Fin (3 / 4), Fin 1] \<rparr>"

text \<open>
  A filter that resamples whenever the weights are not uniform (threshold \<open>0\<close>). The process
  model adds input and noise to the state; the observation model gives likelihood \<open>1\<close> to a
  location within distance \<open>1\<close> of the observation and \<open>1/3\<close> to any other.
\<close>

definition bootstrap_filter :: "(real, real, real, real) particle_filter" where
  "bootstrap_filter =
     \<lparr> process_model_state = (\<lambda>s n i. s + i + n),
       obsrv_model_log_probabilities =
         (\<lambda>y. map (\<lambda>s. if \<bar>s - y\<bar> \<le> 1 then Fin 0 else Fin (ln (1 / 3)))),
       max_kl_divergence = Fin 0 \<rparr>"

text \<open>A resampling generator whose draws are all \<open>0.1\<close>.\<close>

definition low_draws :: "nat \<Rightarrow> fp" where
  "low_draws i = Fin (1 / 10)"

text \<open>Two particles with equal weights, as \<^verbatim>\<open>set_uniform(2)\<close> leaves them.\<close>

definition uniform_pair :: "real \<Rightarrow> real \<Rightarrow> real discrete_distribution" where
  "uniform_pair a b =
     \<lparr> locations = [a, b],
       log_prob_mass = [Fin (- ln 2), Fin (- ln 2)],
       prob_mass = [Fin (1 / 2), Fin (1 / 2)],
       cumul_distr = [Fin (1 / 2), Fin 1] \<rparr>"

text \<open>A store whose object \<open>0\<close> is the skewed belief; every other object is freshly constructed.\<close>

definition example_store :: "real store" where
  "example_store = (\<lambda>r. DiscreteDistribution 0)(0 := skewed_particles)"

text \<open>
  Two particles whose cumulative table ends below one, as rounded additions can leave it.
\<close>

definition rounded_pair :: "real discrete_distribution" where
  "rounded_pair =
     \<lparr> locations = [10, 20],
       log_prob_mass = [Fin (ln (1 / 2)), Fin (ln (499 / 1000))],
       prob_mass = [Fin (1 / 2), Fin (499 / 1000)],
       cumul_distr = [Fin (1 / 2), Fin (999 / 1000)] \<rparr>"



text \<open>
  Two particles after a likelihood weighting that gave the second the log-likelihood \<open>-\<infinity>\<close>.
\<close>

definition zero_weight_pair :: "real discrete_distribution" where
  "zero_weight_pair =
     \<lparr> locations = [10, 20],
       log_prob_mass = [Fin 0, NInf],
       prob_mass = [Fin 1, Fin 0],
       cumul_distr = [Fin 1, Fin 1] \<rparr>"



section \<open>Finite values\<close>

lemma fp_sub_Fin [simp]: "fp_sub (Fin a) (Fin b) = Fin (a - b)"
  by (simp add: fp_sub_def)

lemma foldl_std_max_Fin: "foldl std_max (Fin a) (map Fin rs) = Fin (foldl max a rs)"
  by (induction rs arbitrary: a) (auto simp: std_max_def max_def)

lemma maxCoeff_Fin:
  "rs \<noteq> [] \<Longrightarrow> maxCoeff (map Fin rs) = Inr (Fin (foldl max (hd rs) (tl rs)))"
  by (cases rs) (simp_all add: maxCoeff_def foldl_std_max_Fin)

lemma foldl_fp_add_Fin: "foldl fp_add (Fin a) (map Fin rs) = Fin (a + sum_list rs)"
  by (induction rs arbitrary: a) (simp_all add: add.assoc)

lemma fp_sum_Fin: "fp_sum (map Fin rs) = Fin (sum_list rs)"
  by (cases rs) (simp_all add: fp_sum_def foldl_fp_add_Fin)

lemma upt_0_Suc: "[0..<Suc n] = 0 # map Suc [0..<n]"
  by (simp add: upt_conv_Cons map_Suc_upt del: upt_Suc)

lemma cdf_loop_Fin:
  "cdf_loop (Fin a) (map Fin rs) = map (\<lambda>i. Fin (a + sum_list (take (Suc i) rs))) [0..<length rs]"
proof (induction rs arbitrary: a)
  case Nil
  show ?case by simp
next
  case (Cons r rs)
  show ?case
    by (simp add: upt_0_Suc Cons.IH add.assoc comp_def del: upt_Suc)
qed

lemma compute_cdf_Fin:
  "rs \<noteq> [] \<Longrightarrow>
   compute_cdf (map Fin rs) = Inr (map (\<lambda>i. Fin (sum_list (take (Suc i) rs))) [0..<length rs])"
proof (cases rs)
  case Nil
  moreover assume "rs \<noteq> []"
  ultimately show ?thesis by simp
next
  case (Cons r qs)
  then show ?thesis
    by (simp add: upt_0_Suc compute_cdf_def cdf_loop_Fin comp_def del: upt_Suc)
qed

section \<open>Normalization of finite log-masses\<close>

lemma sum_list_exp_nonneg: "0 \<le> sum_list (map exp (rs::real list))"
  by (rule sum_list_nonneg) auto

lemma sum_list_exp_pos: "rs \<noteq> [] \<Longrightarrow> 0 < sum_list (map exp (rs::real list))"
proof (cases rs)
  case Nil
  moreover assume "rs \<noteq> []"
  ultimately show ?thesis by simp
next
  case (Cons r qs)
  have "0 < exp r + sum_list (map exp qs)"
    by (rule add_pos_nonneg) (simp_all add: sum_list_exp_nonneg)
  then show ?thesis using Cons by simp
qed

lemma sum_list_exp_shift:
  "sum_list (map (\<lambda>x. exp (x - m)) rs) = sum_list (map exp (rs::real list)) / exp m"
  by (induction rs) (simp_all add: exp_diff add_divide_distrib)

lemma lupm_Fin:
  assumes "rs \<noteq> []"
  shows "log_unnormalized_prob_mass d (map Fin rs) =
    Inr \<lparr> locations = resize (locations d) (length rs),
          log_prob_mass = map (\<lambda>x. Fin (x - ln (sum_list (map exp rs)))) rs,
          prob_mass = map Fin (softmax rs),
          cumul_distr = map (\<lambda>i. Fin (sum_list (take (Suc i) (softmax rs)))) [0..<length rs] \<rparr>"
proof -
  define m where "m = foldl max (hd rs) (tl rs)"
  define s where "s = sum_list (map (\<lambda>x. exp (x - m)) rs)"
  have pos: "0 < sum_list (map exp rs)" using assms by (rule sum_list_exp_pos)
  have s: "s = sum_list (map exp rs) / exp m" by (simp add: s_def sum_list_exp_shift)
  then have s_pos: "0 < s" using pos by simp
  have mx: "maxCoeff (map Fin rs) = Inr (Fin m)"
    using assms by (simp add: maxCoeff_Fin m_def)
  have lp0: "map (\<lambda>x. fp_sub x (Fin m)) (map Fin rs) = map Fin (map (\<lambda>x. x - m) rs)"
    by simp
  have pm0: "map fp_exp (map Fin (map (\<lambda>x. x - m) rs)) = map Fin (map (\<lambda>x. exp (x - m)) rs)"
    by simp
  have sm: "fp_sum (map Fin (map (\<lambda>x. exp (x - m)) rs)) = Fin s"
    by (simp only: fp_sum_Fin s_def)
  have pm: "map (\<lambda>x. fp_div x (Fin s)) (map Fin (map (\<lambda>x. exp (x - m)) rs)) = map Fin (softmax rs)"
    using s_pos pos by (simp add: softmax_def s exp_diff)
  have ln_s: "ln s = ln (sum_list (map exp rs)) - m"
    using pos by (simp add: s ln_div)
  have lp: "map (\<lambda>x. fp_sub x (fp_log (Fin s))) (map Fin (map (\<lambda>x. x - m) rs))
            = map (\<lambda>x. Fin (x - ln (sum_list (map exp rs)))) rs"
    using s_pos by (simp add: ln_s)
  have ne: "softmax rs \<noteq> []" using assms by (simp add: softmax_def)
  have cd: "compute_cdf (map Fin (softmax rs))
            = Inr (map (\<lambda>i. Fin (sum_list (take (Suc i) (softmax rs)))) [0..<length rs])"
    using compute_cdf_Fin [OF ne] by (simp add: softmax_def)
  show ?thesis
    unfolding log_unnormalized_prob_mass_def mx
    by (simp only: sum.case Let_def lp0 pm0 sm pm lp cd length_map)
qed

lemma map_Fin_the_fin: "list_all is_Fin v \<Longrightarrow> map Fin (map the_fin v) = v"
  by (induction v) simp_all

lemma sum_list_divide: "sum_list (map (\<lambda>x. f x / c) xs) = sum_list (map f xs) / (c::real)"
  by (induction xs) (simp_all add: add_divide_distrib)

lemma sum_list_softmax: "rs \<noteq> [] \<Longrightarrow> sum_list (softmax rs) = 1"
  using sum_list_exp_pos [of rs] by (simp add: softmax_def sum_list_divide)

lemma softmax_exp_log:
  "rs \<noteq> [] \<Longrightarrow> map Fin (softmax rs) = map fp_exp (map (\<lambda>x. Fin (x - ln (sum_list (map exp rs)))) rs)"
  using sum_list_exp_pos [of rs] by (simp add: softmax_def exp_diff)

text \<open>
  C5: for every non-empty vector \<open>v\<close> of finite log-masses, \<^verbatim>\<open>log_unnormalized_prob_mass\<close>
  returns, and afterwards the weights are the softmax of \<open>v\<close> itself (the subtraction of the
  maximum has no effect on the result), they sum to one, and every weight is the
  exponential of its log-weight.
\<close>

theorem setLogWeights_softmax:
  assumes "v \<noteq> []" and "list_all is_Fin v"
  shows "\<exists>d'. log_unnormalized_prob_mass d v = Inr d' \<and>
           prob_mass d' = map Fin (softmax (map the_fin v)) \<and>
           fp_sum (prob_mass d') = Fin 1 \<and>
           prob_mass d' = map fp_exp (log_prob_mass d')"
proof -
  define rs where "rs = map the_fin v"
  have v: "v = map Fin rs"
    unfolding rs_def using map_Fin_the_fin [OF assms(2)] by simp
  have ne: "rs \<noteq> []" using assms(1) by (simp add: rs_def)
  have sm: "fp_sum (map Fin (softmax rs)) = Fin 1"
    by (simp only: fp_sum_Fin sum_list_softmax [OF ne])
  show ?thesis
    unfolding rs_def [symmetric] unfolding v lupm_Fin [OF ne]
    using sm softmax_exp_log [OF ne] by simp
qed

theorem setLogWeights_softmax_witness:
  "[Fin 0, Fin (ln 3)] \<noteq> [] \<and> list_all is_Fin [Fin 0, Fin (ln 3)] \<and>
   (\<exists>d'. log_unnormalized_prob_mass (DiscreteDistribution (0::real)) [Fin 0, Fin (ln 3)] = Inr d' \<and>
      prob_mass d' = [Fin (1 / 4), Fin (3 / 4)] \<and>
      fp_sum (prob_mass d') = Fin 1 \<and>
      prob_mass d' = map fp_exp (log_prob_mass d'))"
  using setLogWeights_softmax [of "[Fin 0, Fin (ln 3)]" "DiscreteDistribution (0::real)"]
  by (simp add: softmax_def)

section \<open>Prediction\<close>

lemma predicted_locations_step:
  assumes "n < length L"
  shows "(map (\<lambda>i. if i < n then g i else L ! i) [0..<length L])[n := g n]
         = map (\<lambda>i. if i < Suc n then g i else L ! i) [0..<length L]"
proof (rule nth_equalityI)
  show "length ((map (\<lambda>i. if i < n then g i else L ! i) [0..<length L])[n := g n])
        = length (map (\<lambda>i. if i < Suc n then g i else L ! i) [0..<length L])"
    by simp
next
  fix i
  assume "i < length ((map (\<lambda>i. if i < n then g i else L ! i) [0..<length L])[n := g n])"
  then have i: "i < length L" by simp
  show "(map (\<lambda>i. if i < n then g i else L ! i) [0..<length L])[n := g n] ! i
        = map (\<lambda>i. if i < Suc n then g i else L ! i) [0..<length L] ! i"
    using i assms by (cases "i = n") (simp_all add: nth_list_update less_Suc_eq)
qed

lemma predict_fold:
  "n \<le> length (locations (h prior)) \<Longrightarrow>
   fold (predict_step f prior input predicted noise) [0..<n] (h(predicted := h prior)) =
     h(predicted := (h prior)\<lparr>locations :=
         map (\<lambda>i. if i < n then process_model_state f (locations (h prior) ! i) (noise i) input
                   else locations (h prior) ! i)
           [0..<length (locations (h prior))]\<rparr>)"
proof (induction n)
  case 0
  show ?case by (simp add: map_nth)
next
  case (Suc n)
  let ?L = "locations (h prior)"
  let ?g = "\<lambda>i. process_model_state f (?L ! i) (noise i) input"
  let ?D = "(h prior)\<lparr>locations := map (\<lambda>i. if i < n then ?g i else ?L ! i) [0..<length ?L]\<rparr>"
  have n: "n < length ?L" using Suc.prems by simp
  have IH: "fold (predict_step f prior input predicted noise) [0..<n] (h(predicted := h prior))
            = h(predicted := ?D)"
    by (rule Suc.IH) (use n in simp)
  have rd: "locations ((h(predicted := ?D)) prior) ! n = ?L ! n"
  proof (cases "prior = predicted")
    case True
    then show ?thesis using n by simp
  next
    case False
    then show ?thesis by simp
  qed
  have "fold (predict_step f prior input predicted noise) [0..<Suc n] (h(predicted := h prior))
        = predict_step f prior input predicted noise n (h(predicted := ?D))"
    by (simp add: IH)
  also have "\<dots> = h(predicted := ?D\<lparr>locations := (locations ?D)[n := ?g n]\<rparr>)"
    unfolding predict_step_def rd by simp
  also have "\<dots> = h(predicted := (h prior)\<lparr>locations :=
         map (\<lambda>i. if i < Suc n then ?g i else ?L ! i) [0..<length ?L]\<rparr>)"
    using predicted_locations_step [OF n, where g = "?g"] by simp
  finally show ?case .
qed

text \<open>
  C6: \<^verbatim>\<open>predict\<close> leaves the particle count, the weights, the log-weights and the
  cumulative table of the predicted belief equal to the prior's; location \<open>i\<close> becomes the
  process model applied to prior location \<open>i\<close>, the \<open>i\<close>-th noise draw and the input. This
  holds whether or not the two references denote the same object.
\<close>

theorem predict_frame:
  "size_dd (predict f h prior input predicted noise predicted) = size_dd (h prior) \<and>
   prob_mass (predict f h prior input predicted noise predicted) = prob_mass (h prior) \<and>
   log_prob_mass (predict f h prior input predicted noise predicted) = log_prob_mass (h prior) \<and>
   cumul_distr (predict f h prior input predicted noise predicted) = cumul_distr (h prior) \<and>
   locations (predict f h prior input predicted noise predicted) =
     map (\<lambda>i. process_model_state f (locations (h prior) ! i) (noise i) input)
       [0..<size_dd (h prior)]"
  unfolding predict_def Let_def size_dd_def
  by (simp add: predict_fold)

section \<open>Normalized beliefs\<close>

lemma length_running_sums [simp]: "length (running_sums ws) = length ws"
  by (simp add: running_sums_def)

lemma nth_running_sums: "i < length ws \<Longrightarrow> running_sums ws ! i = sum_list (take (Suc i) ws)"
  by (simp add: running_sums_def)

lemma last_running_sums: "ws \<noteq> [] \<Longrightarrow> last (running_sums ws) = sum_list ws"
proof -
  assume ne: "ws \<noteq> []"
  then have "running_sums ws \<noteq> []" by (simp add: running_sums_def)
  then have "last (running_sums ws) = running_sums ws ! (length ws - 1)"
    by (simp add: last_conv_nth)
  also have "\<dots> = sum_list (take (Suc (length ws - 1)) ws)"
    using ne by (simp add: nth_running_sums)
  finally show ?thesis using ne by simp
qed

lemma sum_list_take_mono:
  assumes "\<forall>w\<in>set ws. 0 \<le> (w::real)" and "i \<le> j"
  shows "sum_list (take i ws) \<le> sum_list (take j ws)"
proof -
  have "take j ws = take i ws @ take (j - i) (drop i ws)"
    using assms(2) by (metis le_add_diff_inverse take_add)
  moreover have "0 \<le> sum_list (take (j - i) (drop i ws))"
    using assms(1) by (auto intro!: sum_list_nonneg dest: in_set_takeD in_set_dropD)
  ultimately show ?thesis by simp
qed

lemma sorted_running_sums: "\<forall>w\<in>set ws. 0 \<le> w \<Longrightarrow> sorted (running_sums ws)"
  by (auto simp: sorted_iff_nth_mono nth_running_sums intro: sum_list_take_mono)

lemma sorted_wrt_fp_le_Fin: "sorted_wrt fp_le (map Fin xs) = sorted xs"
  by (simp add: sorted_wrt_map)

lemma normalizedD:
  assumes "normalized d"
  obtains ws where "ws \<noteq> []" and "\<forall>w\<in>set ws. 0 < w" and "sum_list ws = 1"
    and "prob_mass d = map Fin ws" and "cumul_distr d = map Fin (running_sums ws)"
    and "length (locations d) = length ws" and "length (log_prob_mass d) = length ws"
proof -
  define rs where "rs = map the_fin (log_prob_mass d)"
  define ws where "ws = map exp rs"
  have lp: "log_prob_mass d = map Fin rs"
    unfolding rs_def using assms map_Fin_the_fin [of "log_prob_mass d"]
    by (simp add: normalized_def)
  have ne: "ws \<noteq> []" using assms by (simp add: ws_def rs_def normalized_def)
  have pm: "prob_mass d = map Fin ws"
    using assms by (simp add: normalized_def lp ws_def)
  have "fp_sum (prob_mass d) = Fin 1" using assms unfolding normalized_def by blast
  then have "fp_sum (map Fin ws) = Fin 1" by (simp only: pm)
  then have sm: "sum_list ws = 1" by (simp add: fp_sum_Fin)
  have "compute_cdf (prob_mass d) = Inr (cumul_distr d)"
    using assms unfolding normalized_def by blast
  then have "compute_cdf (map Fin ws) = Inr (cumul_distr d)" by (simp only: pm)
  then have cd: "cumul_distr d = map Fin (running_sums ws)"
    by (auto simp: compute_cdf_Fin [OF ne] running_sums_def comp_def)
  have len: "length (locations d) = length ws" "length (log_prob_mass d) = length ws"
    using assms by (simp_all add: normalized_def ws_def rs_def)
  have pos: "\<forall>w\<in>set ws. 0 < w" by (auto simp: ws_def)
  show thesis using that [OF ne pos sm pm cd len] .
qed

lemma normalized_invariant: "normalized d \<Longrightarrow> invariant d"
proof -
  assume n: "normalized d"
  from n obtain ws where ws: "ws \<noteq> []" "\<forall>w\<in>set ws. 0 < w" "sum_list ws = 1"
    "prob_mass d = map Fin ws" "cumul_distr d = map Fin (running_sums ws)"
    "length (locations d) = length ws" "length (log_prob_mass d) = length ws"
    by (rule normalizedD)
  have "\<forall>w\<in>set ws. 0 \<le> w" using ws(2) by (auto intro: less_imp_le)
  then have "sorted (running_sums ws)" by (rule sorted_running_sums)
  then show ?thesis
    using ws by (simp add: invariant_def fp_sum_Fin sorted_wrt_fp_le_Fin)
qed

section \<open>Sampling by the inverse cdf\<close>

lemma lower_bound_Fin:
  "lower_bound (map Fin xs) (Fin r) = length (takeWhile (\<lambda>x. x < r) xs)"
  by (simp add: lower_bound_def takeWhile_map comp_def)

lemma lower_bound_le: "lower_bound cs u \<le> length cs"
  by (simp add: lower_bound_def length_takeWhile_le)





lemma sorted_takeWhile_in_range:
  assumes "sorted xs" and "xs \<noteq> []"
  shows "length (takeWhile (\<lambda>x. x < r) xs) < length xs \<longleftrightarrow> (r::real) \<le> last xs"
proof
  assume lt: "length (takeWhile (\<lambda>x. x < r) xs) < length xs"
  let ?k = "length (takeWhile (\<lambda>x. x < r) xs)"
  have "\<not> xs ! ?k < r" using lt by (rule nth_length_takeWhile)
  moreover have "xs ! ?k \<le> xs ! (length xs - 1)"
    using assms(1) lt by (intro sorted_nth_mono) auto
  ultimately show "r \<le> last xs" using assms(2) by (simp add: last_conv_nth)
next
  assume "r \<le> last xs"
  then have "\<not> last xs < r" by simp
  then have "\<not> (\<forall>x\<in>set xs. x < r)" using last_in_set [OF assms(2)] by blast
  then have "takeWhile (\<lambda>x. x < r) xs \<noteq> xs" by (simp add: takeWhile_eq_all_conv)
  then have "length (takeWhile (\<lambda>x. x < r) xs) \<noteq> length xs"
    by (metis takeWhile_eq_take take_all order_refl)
  then show "length (takeWhile (\<lambda>x. x < r) xs) < length xs"
    using length_takeWhile_le [of "\<lambda>x. x < r" xs] by simp
qed

lemma unit_drawD: "unit_draw u \<Longrightarrow> \<exists>r. u = Fin r \<and> 0 \<le> r \<and> r < 1"
  by (cases u) (simp_all add: unit_draw_def)


lemma four_particles_normalized: "normalized four_particles"
  by (simp add: normalized_def four_particles_def fp_sum_def compute_cdf_def)

lemma length_resize [simp]: "length (resize xs n) = n"
  by (simp add: resize_def)

lemma lupm_normalized:
  assumes "v \<noteq> []" and "list_all is_Fin v"
  shows "\<exists>d'. log_unnormalized_prob_mass d v = Inr d' \<and> normalized d' \<and>
              size_dd d' = length v \<and>
              prob_mass d' = map Fin (softmax (map the_fin v))"
proof -
  define rs where "rs = map the_fin v"
  have v: "v = map Fin rs"
    unfolding rs_def using map_Fin_the_fin [OF assms(2)] by simp
  have ne: "rs \<noteq> []" using assms(1) by (simp add: rs_def)
  have sne: "softmax rs \<noteq> []" using ne by (simp add: softmax_def)
  have len: "length (softmax rs) = length rs" by (simp add: softmax_def)
  have sm: "fp_sum (map Fin (softmax rs)) = Fin 1"
    by (simp only: fp_sum_Fin sum_list_softmax [OF ne])
  have cd: "compute_cdf (map Fin (softmax rs))
            = Inr (map (\<lambda>i. Fin (sum_list (take (Suc i) (softmax rs)))) [0..<length rs])"
    using compute_cdf_Fin [OF sne] by (simp only: len)
  have fin: "list_all is_Fin (map (\<lambda>x. Fin (x - ln (sum_list (map exp rs)))) rs)"
    by (simp add: list_all_iff)
  have "normalized \<lparr> locations = resize (locations d) (length rs),
          log_prob_mass = map (\<lambda>x. Fin (x - ln (sum_list (map exp rs)))) rs,
          prob_mass = map Fin (softmax rs),
          cumul_distr = map (\<lambda>i. Fin (sum_list (take (Suc i) (softmax rs)))) [0..<length rs] \<rparr>"
    unfolding normalized_def
    using ne fin sm cd softmax_exp_log [OF ne] by simp
  then show ?thesis
    unfolding rs_def [symmetric] unfolding v lupm_Fin [OF ne]
    by (simp add: size_dd_def)
qed

lemma normalized_cumul:
  assumes "normalized d"
  shows "length (cumul_distr d) = length (locations d)" and "cumul_distr d \<noteq> []"
    and "list_all is_Fin (cumul_distr d)" and "sorted_wrt fp_le (cumul_distr d)"
    and "last (cumul_distr d) = Fin 1"
proof -
  from assms obtain ws where ws: "ws \<noteq> []" "\<forall>w\<in>set ws. 0 < w" "sum_list ws = 1"
    "prob_mass d = map Fin ws" "cumul_distr d = map Fin (running_sums ws)"
    "length (locations d) = length ws" "length (log_prob_mass d) = length ws"
    by (rule normalizedD)
  have ne: "running_sums ws \<noteq> []" using ws(1) by (simp add: running_sums_def)
  have "\<forall>w\<in>set ws. 0 \<le> w" using ws(2) by (auto intro: less_imp_le)
  then have srt: "sorted (running_sums ws)" by (rule sorted_running_sums)
  show "length (cumul_distr d) = length (locations d)" by (simp add: ws(5,6))
  show "cumul_distr d \<noteq> []" using ne by (simp add: ws(5))
  show "list_all is_Fin (cumul_distr d)" by (simp add: ws(5) list_all_iff)
  show "sorted_wrt fp_le (cumul_distr d)" using srt by (simp add: ws(5) sorted_wrt_fp_le_Fin)
  show "last (cumul_distr d) = Fin 1"
    using ne ws(1,3) by (simp add: ws(5) last_map last_running_sums)
qed

lemma lower_bound_in_range:
  assumes "cumul_distr d \<noteq> []" and "list_all is_Fin (cumul_distr d)"
    and "sorted_wrt fp_le (cumul_distr d)" and "is_Fin u"
  shows "lower_bound (cumul_distr d) u < length (cumul_distr d) \<longleftrightarrow> fp_le u (last (cumul_distr d))"
proof -
  define xs where "xs = map the_fin (cumul_distr d)"
  have cd: "cumul_distr d = map Fin xs"
    unfolding xs_def using map_Fin_the_fin [OF assms(2)] by simp
  obtain r where r: "u = Fin r" using assms(4) by (cases u) simp_all
  have ne: "xs \<noteq> []" using assms(1) by (simp add: xs_def)
  have srt: "sorted xs" using assms(3) by (simp add: cd sorted_wrt_fp_le_Fin)
  show ?thesis
    using sorted_takeWhile_in_range [OF srt ne, of r] ne
    by (simp add: cd r lower_bound_Fin last_map)
qed

lemma fp_less_not_le: "is_Fin a \<Longrightarrow> is_Fin b \<Longrightarrow> fp_less a b \<longleftrightarrow> \<not> fp_le b a"
  by (cases a; cases b) auto

text \<open>
  C10: for a sorted, finite cumulative table as long as the location array and a finite
  \<open>u\<close>, \<^verbatim>\<open>map_standard_uniform\<close> reads the locations in range exactly when \<open>u\<close> is at most
  the last cumulative entry; when \<open>u\<close> is greater, the lower bound is \<^verbatim>\<open>size()\<close> and the read
  is out of range, also through \<^verbatim>\<open>map_standard_normal\<close>. After
  \<^verbatim>\<open>log_unnormalized_prob_mass\<close> on non-empty finite log-masses the last entry is \<open>1\<close> and
  every \<open>u\<close> in \<open>[0, 1]\<close> is read in range.
\<close>

theorem mapStandardUniform_range:
  assumes "length (cumul_distr d) = length (locations d)" and "cumul_distr d \<noteq> []"
    and "list_all is_Fin (cumul_distr d)" and "sorted_wrt fp_le (cumul_distr d)"
    and "is_Fin u"
  shows "((\<exists>x. map_standard_uniform d u = Inr x) \<longleftrightarrow> fp_le u (last (cumul_distr d))) \<and>
         (fp_less (last (cumul_distr d)) u \<longrightarrow>
            lower_bound (cumul_distr d) u = size_dd d \<and>
            map_standard_uniform d u = Inl IndexOutOfRange) \<and>
         (cdf z = u \<and> fp_less (last (cumul_distr d)) u \<longrightarrow>
            map_standard_normal cdf d z = Inl IndexOutOfRange) \<and>
         (v \<noteq> [] \<and> list_all is_Fin v \<longrightarrow>
            (\<exists>d'. log_unnormalized_prob_mass d0 v = Inr d' \<and> last (cumul_distr d') = Fin 1 \<and>
               (fp_le (Fin 0) u \<and> fp_le u (Fin 1) \<longrightarrow> (\<exists>x. map_standard_uniform d' u = Inr x))))"
proof -
  have rng: "lower_bound (cumul_distr d) u < length (cumul_distr d) \<longleftrightarrow> fp_le u (last (cumul_distr d))"
    using assms(2-5) by (rule lower_bound_in_range)
  have lst: "is_Fin (last (cumul_distr d))"
    using assms(2,3) last_in_set [OF assms(2)] by (simp add: list_all_iff)
  have a: "(\<exists>x. map_standard_uniform d u = Inr x) \<longleftrightarrow> fp_le u (last (cumul_distr d))"
    using rng by (auto simp: map_standard_uniform_def Let_def assms(1) [symmetric])
  have b: "lower_bound (cumul_distr d) u = size_dd d \<and> map_standard_uniform d u = Inl IndexOutOfRange"
    if "fp_less (last (cumul_distr d)) u"
  proof -
    have "\<not> fp_le u (last (cumul_distr d))"
      using that lst assms(5) by (simp add: fp_less_not_le)
    then have "\<not> lower_bound (cumul_distr d) u < length (cumul_distr d)" using rng by simp
    then have "lower_bound (cumul_distr d) u = length (cumul_distr d)"
      using lower_bound_le [of "cumul_distr d" u] by simp
    then show ?thesis
      by (simp add: map_standard_uniform_def size_dd_def assms(1))
  qed
  have c: "map_standard_normal cdf d z = Inl IndexOutOfRange"
    if "cdf z = u" "fp_less (last (cumul_distr d)) u"
    using b [OF that(2)] that(1) by (simp add: map_standard_normal_def)
  have e: "\<exists>d'. log_unnormalized_prob_mass d0 v = Inr d' \<and> last (cumul_distr d') = Fin 1 \<and>
               (fp_le (Fin 0) u \<and> fp_le u (Fin 1) \<longrightarrow> (\<exists>x. map_standard_uniform d' u = Inr x))"
    if v: "v \<noteq> []" "list_all is_Fin v"
  proof -
    from lupm_normalized [OF v, of d0] obtain d' where
      d': "log_unnormalized_prob_mass d0 v = Inr d'" "normalized d'" by blast
    have one: "last (cumul_distr d') = Fin 1" using d'(2) by (rule normalized_cumul)
    have "lower_bound (cumul_distr d') u < length (cumul_distr d') \<longleftrightarrow> fp_le u (last (cumul_distr d'))"
      using normalized_cumul(2-4) [OF d'(2)] assms(5) by (rule lower_bound_in_range)
    then have "\<exists>x. map_standard_uniform d' u = Inr x" if "fp_le u (Fin 1)"
      using that one normalized_cumul(1) [OF d'(2)]
      by (simp add: map_standard_uniform_def Let_def)
    then show ?thesis using d'(1) one by blast
  qed
  show ?thesis using a b c e by blast
qed

theorem mapStandardUniform_range_witness:
  "(\<exists>x. map_standard_uniform four_particles (Fin 1) = Inr x) \<and>
   fp_le (Fin 1) (last (cumul_distr four_particles)) \<and>
   fp_less (last (cumul_distr rounded_pair)) (Fin 1) \<and>
   lower_bound (cumul_distr rounded_pair) (Fin 1) = 2 \<and>
   map_standard_uniform rounded_pair (Fin 1) = Inl IndexOutOfRange \<and>
   map_standard_normal (\<lambda>z. Fin 1) rounded_pair (Fin 9) = Inl IndexOutOfRange \<and>
   (\<exists>d'. log_unnormalized_prob_mass four_particles [Fin 0, Fin 0] = Inr d' \<and>
      last (cumul_distr d') = Fin 1 \<and> (\<exists>x. map_standard_uniform d' (Fin 1) = Inr x))"
  using mapStandardUniform_range [where d = four_particles and u = "Fin 1" and cdf = "\<lambda>z. Fin 1"
      and z = "Fin 9" and v = "[Fin 0, Fin 0]" and ?d0.0 = four_particles]
    mapStandardUniform_range [where d = rounded_pair and u = "Fin 1" and cdf = "\<lambda>z. Fin 1"
      and z = "Fin 9" and v = "[]" and ?d0.0 = four_particles]
  by (simp add: four_particles_def rounded_pair_def size_dd_def)

section \<open>Resampling\<close>

lemma sample_normalized:
  assumes "normalized d" and "unit_draw u"
  shows "sample d u = Inr (locations d ! lower_bound (cumul_distr d) u)"
proof -
  from assms(2) obtain r where r: "u = Fin r" "0 \<le> r" "r < 1"
    using unit_drawD by blast
  have "fp_le u (last (cumul_distr d))"
    using r normalized_cumul(5) [OF assms(1)] by simp
  moreover have "is_Fin u" by (simp add: r(1))
  ultimately have "lower_bound (cumul_distr d) u < length (cumul_distr d)"
    using lower_bound_in_range [OF normalized_cumul(2-4) [OF assms(1)]] by blast
  then show ?thesis
    by (simp add: sample_def map_standard_uniform_def normalized_cumul(1) [OF assms(1)])
qed

lemma sample_loop_normalized:
  assumes "normalized d"
  shows "list_all unit_draw (map us js) \<Longrightarrow>
         sample_loop d us js = Inr (map (\<lambda>i. locations d ! lower_bound (cumul_distr d) (us i)) js)"
  by (induction js) (simp_all add: sample_normalized [OF assms])

lemma softmax_replicate: "0 < n \<Longrightarrow> softmax (replicate n 0) = replicate n (1 / real n)"
  by (simp add: softmax_def sum_list_replicate map_replicate_const)

lemma set_uniform_normalized:
  assumes "0 < n"
  shows "\<exists>d'. set_uniform d n = Inr d' \<and> normalized d' \<and> size_dd d' = n \<and>
              prob_mass d' = replicate n (Fin (1 / real n))"
proof -
  have ne: "replicate n (Fin 0) \<noteq> []" using assms by simp
  have fin: "list_all is_Fin (replicate n (Fin 0))" by (simp add: list_all_iff)
  have "map Fin (softmax (map the_fin (replicate n (Fin 0)))) = replicate n (Fin (1 / real n))"
    using assms by (simp add: softmax_replicate)
  then show ?thesis
    using lupm_normalized [OF ne fin, of d] by (simp add: set_uniform_def)
qed

lemma normalized_locations:
  "normalized d \<Longrightarrow> length xs = size_dd d \<Longrightarrow> normalized (d\<lparr>locations := xs\<rparr>)"
  by (auto simp: normalized_def size_dd_def)

lemma from_distribution_Inr:
  assumes "normalized (h src)" and "0 < n" and "list_all unit_draw (map us [0..<n])"
  shows "\<exists>d'. set_uniform (h this) n = Inr d' \<and> normalized d' \<and> size_dd d' = n \<and>
           prob_mass d' = replicate n (Fin (1 / real n)) \<and>
           from_distribution h this src n us =
             Inr (h(this := d'\<lparr>locations :=
               map (\<lambda>i. locations (h src) ! lower_bound (cumul_distr (h src)) (us i)) [0..<n]\<rparr>))"
proof -
  have smp: "sample_loop (h src) us [0..<n] =
      Inr (map (\<lambda>i. locations (h src) ! lower_bound (cumul_distr (h src)) (us i)) [0..<n])"
    using assms(1,3) by (rule sample_loop_normalized)
  from set_uniform_normalized [OF assms(2), of "h this"] obtain d' where
    d': "set_uniform (h this) n = Inr d'" "normalized d'" "size_dd d' = n"
      "prob_mass d' = replicate n (Fin (1 / real n))"
    by blast
  then show ?thesis
    by (simp add: from_distribution_def smp)
qed

lemma upt_4: "[0..<4] = [0, 1, 2, 3]"
  by (simp add: upt_conv_Cons)

section \<open>The update step\<close>

lemma skewed_particles_normalized: "normalized skewed_particles"
  by (simp add: normalized_def skewed_particles_def fp_sum_def compute_cdf_def)

lemma ln_skew: "0 < ln 2 + (ln (3 / 4) * (3 / 4) + ln (1 / 4) * (1 / 4 :: real))"
proof -
  have l4: "ln (4::real) = 2 * ln 2"
    using ln_realpow [of 2 2] by simp
  have l16: "ln (16::real) = 4 * ln 2"
    using ln_realpow [of 2 4] by simp
  have l27: "ln (27::real) = 3 * ln 3"
    using ln_realpow [of 3 3] by simp
  have "ln (16::real) < ln 27" by simp
  then have "4 * ln (2::real) < 3 * ln 3" by (simp only: l16 l27)
  moreover have "ln (3 / 4 :: real) = ln 3 - ln 4" by (simp add: ln_div)
  moreover have "ln (1 / 4 :: real) = - ln 4" by (simp add: ln_div)
  ultimately show ?thesis using l4 by linarith
qed



lemma upt_2: "[0..<2] = [0, 1]"
  by (simp add: upt_conv_Cons)

lemma set_uniform_2:
  "set_uniform d 2 =
     Inr \<lparr> locations = resize (locations d) 2,
           log_prob_mass = [Fin (- ln 2), Fin (- ln 2)],
           prob_mass = [Fin (1 / 2), Fin (1 / 2)],
           cumul_distr = [Fin (1 / 2), Fin 1] \<rparr>"
proof -
  have "replicate 2 (Fin 0) = map Fin [0, 0]" by (simp add: eval_nat_numeral)
  then show ?thesis
    unfolding set_uniform_def using lupm_Fin [of "[0, 0]" d]
    by (simp add: softmax_def upt_2 eval_nat_numeral)
qed

lemma delta_log_prob_mass_Fin:
  assumes "log_prob_mass d = map Fin ls" and "length ds = length ls" and "ls \<noteq> []"
    and "length (locations d) = length ls"
  shows "\<exists>d'. delta_log_prob_mass d (map Fin ds) = Inr d' \<and>
              prob_mass d' = map Fin (softmax (map2 (+) ls ds)) \<and>
              locations d' = locations d"
proof -
  have add: "map2 fp_add (map Fin ls) (map Fin ds) = map Fin (map2 (+) ls ds)"
    by (auto simp: zip_map_map)
  have ne: "map2 (+) ls ds \<noteq> []" using assms(2,3) by (cases ls; cases ds) simp_all
  have len: "length (map2 (+) ls ds) = length (locations d)" using assms(2,4) by simp
  have "delta_log_prob_mass d (map Fin ds) = log_unnormalized_prob_mass d (map Fin (map2 (+) ls ds))"
    unfolding delta_log_prob_mass_def cwise_def assms(1)
    using assms(2) by (simp add: add del: map_map)
  then show ?thesis
    using lupm_Fin [OF ne, of d] len by (simp add: resize_def)
qed

lemma resample_step_bootstrap:
  assumes "h predicted = skewed_particles\<lparr>locations := [a, b]\<rparr>"
  shows "resample_step bootstrap_filter h predicted posterior low_draws =
         Inr (h(posterior := uniform_pair a a))"
proof -
  have kl: "kl_given_uniform (h predicted) =
     Inr (Fin (ln 2 + (ln (3 / 4) * (3 / 4) + ln (1 / 4) * (1 / 4))))"
    unfolding assms
    by (simp add: kl_given_uniform_def entropy_def cwise_def fp_sum_def skewed_particles_def
        size_dd_def)
  have gt: "fp_less (max_kl_divergence bootstrap_filter)
              (Fin (ln 2 + (ln (3 / 4) * (3 / 4) + ln (1 / 4) * (1 / 4))))"
    using ln_skew by (simp add: bootstrap_filter_def)
  have sz: "size_dd (h predicted) = 2" by (simp add: assms size_dd_def)
  have smp: "sample_loop (h predicted) low_draws [0..<2] = Inr [a, a]"
    by (simp add: assms upt_2 sample_def map_standard_uniform_def lower_bound_def
        skewed_particles_def low_draws_def)
  have "from_distribution h posterior predicted 2 low_draws = Inr (h(posterior := uniform_pair a a))"
    by (simp add: from_distribution_def smp set_uniform_2 uniform_pair_def)
  then show ?thesis
    using gt by (simp add: resample_step_def kl sz)
qed

lemma uniform_pair_delta:
  "\<exists>d'. delta_log_prob_mass (uniform_pair a b) [Fin x, Fin y] = Inr d' \<and>
         prob_mass d' = [Fin (exp x / (exp x + exp y)), Fin (exp y / (exp x + exp y))] \<and>
         locations d' = [a, b]"
proof -
  have pos: "0 < exp x + exp y" by (simp add: add_pos_pos)
  have "softmax (map2 (+) [- ln 2, - ln 2] [x, y])
        = [exp x / (exp x + exp y), exp y / (exp x + exp y)]"
    using pos by (simp add: softmax_def exp_diff exp_add exp_minus field_simps)
  then show ?thesis
    using delta_log_prob_mass_Fin [of "uniform_pair a b" "[- ln 2, - ln 2]" "[x, y]"]
    by (simp add: uniform_pair_def)
qed

lemma predict_eq:
  "predict f h prior input predicted noise =
     h(predicted := (h prior)\<lparr>locations :=
         map (\<lambda>i. process_model_state f (locations (h prior) ! i) (noise i) input)
           [0..<length (locations (h prior))]\<rparr>)"
proof -
  have "map (\<lambda>i. if i < length (locations (h prior))
                  then process_model_state f (locations (h prior) ! i) (noise i) input
                  else locations (h prior) ! i) [0..<length (locations (h prior))]
        = map (\<lambda>i. process_model_state f (locations (h prior) ! i) (noise i) input)
            [0..<length (locations (h prior))]"
    by simp
  then show ?thesis
    unfolding predict_def Let_def size_dd_def
    by (simp only: fun_upd_same predict_fold [OF order_refl])
qed

lemma bootstrap_likelihood:
  "obsrv_model_log_probabilities bootstrap_filter y xs =
     map (\<lambda>s. if \<bar>s - y\<bar> \<le> 1 then Fin 0 else Fin (ln (1 / 3))) xs"
  by (simp add: bootstrap_filter_def)

lemma update_bootstrap:
  assumes "h predicted = skewed_particles\<lparr>locations := [a, b]\<rparr>"
    and "obsrv_model_log_probabilities bootstrap_filter y
           (locations ((h(posterior := uniform_pair a a)) predicted)) = [Fin v, Fin w]"
  shows "\<exists>h'. update bootstrap_filter h predicted y posterior low_draws = Inr h' \<and>
              locations (h' posterior) = [a, a] \<and>
              prob_mass (h' posterior) =
                [Fin (exp v / (exp v + exp w)), Fin (exp w / (exp v + exp w))]"
proof -
  from uniform_pair_delta [of a a v w] obtain d' where
    d': "delta_log_prob_mass (uniform_pair a a) [Fin v, Fin w] = Inr d'"
      "prob_mass d' = [Fin (exp v / (exp v + exp w)), Fin (exp w / (exp v + exp w))]"
      "locations d' = [a, a]"
    by blast
  have "update bootstrap_filter h predicted y posterior low_draws =
          Inr ((h(posterior := uniform_pair a a))(posterior := d'))"
    unfolding update_def
      resample_step_bootstrap [where h = h and predicted = predicted, OF assms(1)]
    by (simp only: sum.case assms(2) fun_upd_same d'(1))
  then show ?thesis using d'(2,3) by simp
qed

text \<open>
  C1: the claim is that after resampling the likelihoods are those of the resampled
  locations. Here \<^verbatim>\<open>update\<close> runs with distinct predicted and posterior objects: both
  resampled particles sit at \<open>10\<close>, where the likelihoods are equal, yet the posterior
  weights are \<open>1/4\<close> and \<open>3/4\<close>, the likelihoods of the predicted locations \<open>10\<close> and \<open>20\<close>.
\<close>

theorem update_scores_predicted_locations:
  "\<exists>h'. update bootstrap_filter example_store 0 20 2 low_draws = Inr h' \<and>
        locations (h' 2) = [10, 10] \<and>
        prob_mass (h' 2) = [Fin (1 / 4), Fin (3 / 4)] \<and>
        obsrv_model_log_probabilities bootstrap_filter 20 (locations (h' 2)) =
          [Fin (ln (1 / 3)), Fin (ln (1 / 3))] \<and>
        obsrv_model_log_probabilities bootstrap_filter 20 (locations (example_store 0)) =
          [Fin (ln (1 / 3)), Fin 0]"
proof -
  have p: "example_store 0 = skewed_particles\<lparr>locations := [10, 20]\<rparr>"
    by (simp add: example_store_def skewed_particles_def)
  have l: "obsrv_model_log_probabilities bootstrap_filter 20
             (locations ((example_store(2 := uniform_pair 10 10)) 0)) = [Fin (ln (1 / 3)), Fin 0]"
    by (simp add: bootstrap_likelihood p)
  have w: "exp (ln (1 / 3)) / (exp (ln (1 / 3)) + exp 0) = (1 / 4 :: real)"
    "exp 0 / (exp (ln (1 / 3)) + exp 0) = (3 / 4 :: real)"
    by simp_all
  from update_bootstrap [where h = example_store and predicted = 0, OF p l] obtain h' where
    h': "update bootstrap_filter example_store 0 20 2 low_draws = Inr h'"
      "locations (h' 2) = [10, 10]" "prob_mass (h' 2) = [Fin (1 / 4), Fin (3 / 4)]"
    unfolding w by blast
  show ?thesis
    using h' by (simp add: bootstrap_likelihood p)
qed

text \<open>
  C7: the claim is that \<^verbatim>\<open>predict_and_update\<close> equals \<^verbatim>\<open>predict\<close> followed by
  \<^verbatim>\<open>update\<close> on distinct objects. With the same noise and the same resampling draws the
  two give the same locations and different weights.
\<close>

theorem predict_and_update_differs:
  "\<exists>fused two_step.
     predict_and_update bootstrap_filter example_store 0 5 25 2 (\<lambda>i. 0) low_draws = Inr fused \<and>
     update bootstrap_filter (predict bootstrap_filter example_store 0 5 1 (\<lambda>i. 0)) 1 25 2
       low_draws = Inr two_step \<and>
     locations (fused 2) = [15, 15] \<and> prob_mass (fused 2) = [Fin (1 / 2), Fin (1 / 2)] \<and>
     locations (two_step 2) = [15, 15] \<and> prob_mass (two_step 2) = [Fin (1 / 4), Fin (3 / 4)]"
proof -
  have loc: "locations (example_store 0) = [10, 20]"
    by (simp add: example_store_def skewed_particles_def)
  have st: "process_model_state bootstrap_filter s n i = s + i + n" for s n i
    by (simp add: bootstrap_filter_def)
  have pr: "predict bootstrap_filter example_store 0 5 r (\<lambda>i. 0) r
            = skewed_particles\<lparr>locations := [15, 25]\<rparr>" for r
    by (simp add: predict_eq loc st upt_2) (simp add: example_store_def)
  have l1: "obsrv_model_log_probabilities bootstrap_filter 25
      (locations (((predict bootstrap_filter example_store 0 5 1 (\<lambda>i. 0))(2 := uniform_pair 15 15)) 1))
      = [Fin (ln (1 / 3)), Fin 0]"
    by (simp add: pr bootstrap_likelihood)
  have l2: "obsrv_model_log_probabilities bootstrap_filter 25
      (locations (((predict bootstrap_filter example_store 0 5 2 (\<lambda>i. 0))(2 := uniform_pair 15 15)) 2))
      = [Fin (ln (1 / 3)), Fin (ln (1 / 3))]"
    by (simp add: bootstrap_likelihood uniform_pair_def)
  have w: "exp (ln (1 / 3)) / (exp (ln (1 / 3)) + exp 0) = (1 / 4 :: real)"
    "exp 0 / (exp (ln (1 / 3)) + exp 0) = (3 / 4 :: real)"
    "exp (ln (1 / 3)) / (exp (ln (1 / 3)) + exp (ln (1 / 3))) = (1 / 2 :: real)"
    by simp_all
  from update_bootstrap
    [where h = "predict bootstrap_filter example_store 0 5 1 (\<lambda>i. 0)" and predicted = 1, OF pr l1]
  obtain two_step where
    t: "update bootstrap_filter (predict bootstrap_filter example_store 0 5 1 (\<lambda>i. 0)) 1 25 2
          low_draws = Inr two_step"
      "locations (two_step 2) = [15, 15]" "prob_mass (two_step 2) = [Fin (1 / 4), Fin (3 / 4)]"
    unfolding w by blast
  from update_bootstrap
    [where h = "predict bootstrap_filter example_store 0 5 2 (\<lambda>i. 0)" and predicted = 2, OF pr l2]
  obtain fused where
    f: "update bootstrap_filter (predict bootstrap_filter example_store 0 5 2 (\<lambda>i. 0)) 2 25 2
          low_draws = Inr fused"
      "locations (fused 2) = [15, 15]" "prob_mass (fused 2) = [Fin (1 / 2), Fin (1 / 2)]"
    unfolding w by blast
  show ?thesis
    using t f by (simp add: predict_and_update_def)
qed

section \<open>Failure of the normalization\<close>

lemma lupm_total:
  "\<exists>d'. log_unnormalized_prob_mass d (x # xs) = Inr d' \<and> length (prob_mass d') = Suc (length xs)"
  by (simp add: log_unnormalized_prob_mass_def maxCoeff_def compute_cdf_def Let_def)

lemma one_le_sum_list_exp_shift:
  assumes "m \<in> set rs"
  shows "1 \<le> sum_list (map (\<lambda>x. exp (x - m)) (rs::real list))"
  using assms
proof (induction rs)
  case Nil
  then show ?case by simp
next
  case (Cons r rs)
  have nn: "0 \<le> sum_list (map (\<lambda>x. exp (x - m)) rs)" by (rule sum_list_nonneg) auto
  show ?case
  proof (cases "m = r")
    case True
    then show ?thesis using nn by simp
  next
    case False
    then have "1 \<le> sum_list (map (\<lambda>x. exp (x - m)) rs)" using Cons by simp
    moreover have "0 \<le> exp (r - m)" by simp
    ultimately have "1 \<le> exp (r - m) + sum_list (map (\<lambda>x. exp (x - m)) rs)" by linarith
    then show ?thesis by simp
  qed
qed

lemma foldl_max_mem: "foldl max (a::real) rs \<in> set (a # rs)"
proof (induction rs arbitrary: a)
  case Nil
  show ?case by simp
next
  case (Cons r rs)
  from Cons.IH [of "max a r"] show ?case by (auto simp: max_def split: if_splits)
qed

text \<open>
  C3, as the code has it: \<^verbatim>\<open>log_unnormalized_prob_mass\<close> fails on the empty vector, at the
  assertion of \<^verbatim>\<open>maxCoeff\<close>; on every non-empty vector it returns a distribution. On
  finite log-masses the sum of the rescaled exponentials is at least one.
\<close>

theorem setLogWeights_never_domain_error:
  "log_unnormalized_prob_mass d [] = Inl EmptyMatrix \<and>
   (\<exists>d'. log_unnormalized_prob_mass d (x # xs) = Inr d' \<and>
      length (prob_mass d') = Suc (length xs)) \<and>
   (list_all is_Fin (x # xs) \<longrightarrow>
      (\<exists>m s. maxCoeff (x # xs) = Inr m \<and>
         fp_sum (map fp_exp (map (\<lambda>y. fp_sub y m) (x # xs))) = Fin s \<and> 1 \<le> s))"
proof -
  have a: "log_unnormalized_prob_mass d [] = Inl EmptyMatrix"
    by (simp add: log_unnormalized_prob_mass_def maxCoeff_def)
  have c: "\<exists>m s. maxCoeff (x # xs) = Inr m \<and>
         fp_sum (map fp_exp (map (\<lambda>y. fp_sub y m) (x # xs))) = Fin s \<and> 1 \<le> s"
    if fin: "list_all is_Fin (x # xs)"
  proof -
    define rs where "rs = map the_fin (x # xs)"
    have v: "x # xs = map Fin rs"
      unfolding rs_def using map_Fin_the_fin [OF fin] by simp
    have ne: "rs \<noteq> []" by (simp add: rs_def)
    define m where "m = foldl max (hd rs) (tl rs)"
    have "m \<in> set (hd rs # tl rs)" unfolding m_def by (rule foldl_max_mem)
    then have mem: "m \<in> set rs" using ne by simp
    have mx: "maxCoeff (map Fin rs) = Inr (Fin m)"
      using ne by (simp add: maxCoeff_Fin m_def)
    have "map fp_exp (map (\<lambda>y. fp_sub y (Fin m)) (map Fin rs)) = map Fin (map (\<lambda>x. exp (x - m)) rs)"
      by simp
    then have sm: "fp_sum (map fp_exp (map (\<lambda>y. fp_sub y (Fin m)) (map Fin rs)))
                 = Fin (sum_list (map (\<lambda>x. exp (x - m)) rs))"
      by (simp only: fp_sum_Fin)
    show ?thesis
      unfolding v using mx sm one_le_sum_list_exp_shift [OF mem] by blast
  qed
  show ?thesis using a lupm_total [of d x xs] c by blast
qed

theorem setLogWeights_never_domain_error_witness:
  "list_all is_Fin [Fin 0, Fin (ln 3)] \<and>
   log_unnormalized_prob_mass (DiscreteDistribution (0::real)) [] = Inl EmptyMatrix \<and>
   (\<exists>d'. log_unnormalized_prob_mass (DiscreteDistribution (0::real)) [Fin 0, Fin (ln 3)] = Inr d') \<and>
   maxCoeff [Fin 0, Fin (ln 3)] = Inr (Fin (ln 3)) \<and>
   fp_sum (map fp_exp [fp_sub (Fin 0) (Fin (ln 3)), fp_sub (Fin (ln 3)) (Fin (ln 3))]) = Fin (4 / 3)"
  using setLogWeights_never_domain_error [of "DiscreteDistribution (0::real)" "Fin 0" "[Fin (ln 3)]"]
  by (auto simp: maxCoeff_def std_max_def fp_sum_def exp_minus)

text \<open>
  C3, as stated, fails: for the single log-mass \<open>-\<infinity>\<close> the sum of the rescaled exponentials
  is NaN, and the function returns a distribution whose weight is NaN.
\<close>

theorem setLogWeights_returns_nan:
  "maxCoeff [NInf] = Inr NInf \<and>
   fp_sum (map fp_exp [fp_sub NInf NInf]) = NaN \<and>
   log_unnormalized_prob_mass (DiscreteDistribution (0::real)) [NInf] =
     Inr \<lparr> locations = [0], log_prob_mass = [NaN], prob_mass = [NaN], cumul_distr = [NaN] \<rparr>"
  by (simp add: log_unnormalized_prob_mass_def maxCoeff_def fp_sum_def fp_sub_def compute_cdf_def
      DiscreteDistribution_def resize_def Let_def)

lemma is_Fin_add: "is_Fin a \<Longrightarrow> is_Fin b \<Longrightarrow> is_Fin (fp_add a b)"
  by (cases a; cases b) simp_all

lemma list_all_map2:
  "list_all P xs \<Longrightarrow> list_all P ys \<Longrightarrow> (\<And>a b. P a \<Longrightarrow> P b \<Longrightarrow> P (f a b)) \<Longrightarrow>
   list_all P (map2 f xs ys)"
  by (induction xs arbitrary: ys) (auto split: list.splits simp: zip_Cons1)

lemma delta_normalized:
  assumes "normalized d" and "length delta = size_dd d" and "list_all is_Fin delta"
  shows "\<exists>d'. delta_log_prob_mass d delta = Inr d' \<and> normalized d' \<and> size_dd d' = size_dd d"
proof -
  have lp: "list_all is_Fin (log_prob_mass d)" "log_prob_mass d \<noteq> []"
    "length (locations d) = length (log_prob_mass d)"
    using assms(1) unfolding normalized_def by blast+
  have len: "length (log_prob_mass d) = length delta"
    using assms(2) lp(3) by (simp add: size_dd_def)
  let ?v = "map2 fp_add (log_prob_mass d) delta"
  have ne: "?v \<noteq> []" using lp(2) len by (cases "log_prob_mass d"; cases delta) simp_all
  have fin: "list_all is_Fin ?v"
    using lp(1) assms(3) by (rule list_all_map2) (rule is_Fin_add)
  have "delta_log_prob_mass d delta = log_unnormalized_prob_mass d ?v"
    by (simp add: delta_log_prob_mass_def cwise_def len)
  then show ?thesis
    using lupm_normalized [OF ne fin, of d] len lp(3) by (auto simp: size_dd_def)
qed

section \<open>The invariants of a particle set\<close>

text \<open>
  C4, as the code has it: each of \<^verbatim>\<open>log_unnormalized_prob_mass\<close> on non-empty finite
  log-masses, \<^verbatim>\<open>delta_log_prob_mass\<close> of a finite delta of the current size on a normalized
  belief, \<^verbatim>\<open>set_uniform\<close> with a positive size, and \<^verbatim>\<open>from_distribution\<close> with a positive
  count from a normalized source with draws from \<open>[0, 1)\<close> returns, and leaves a normalized
  belief: the four sequences have one size, the weights sum to one and the cumulative
  weights do not decrease.
\<close>

theorem mutations_keep_invariant:
  "(v \<noteq> [] \<and> list_all is_Fin v \<longrightarrow>
      (\<exists>d'. log_unnormalized_prob_mass d v = Inr d' \<and> normalized d' \<and> invariant d')) \<and>
   (normalized d \<and> length delta = size_dd d \<and> list_all is_Fin delta \<longrightarrow>
      (\<exists>d'. delta_log_prob_mass d delta = Inr d' \<and> normalized d' \<and> invariant d')) \<and>
   (0 < n \<longrightarrow> (\<exists>d'. set_uniform d n = Inr d' \<and> normalized d' \<and> invariant d')) \<and>
   (normalized (h src) \<and> 0 < n \<and> list_all unit_draw (map us [0..<n]) \<longrightarrow>
      (\<exists>h'. from_distribution h this src n us = Inr h' \<and> normalized (h' this) \<and>
         invariant (h' this)))"
proof -
  have a: "\<exists>d'. log_unnormalized_prob_mass d v = Inr d' \<and> normalized d' \<and> invariant d'"
    if "v \<noteq> []" "list_all is_Fin v"
    using lupm_normalized [OF that, of d] normalized_invariant by blast
  have b: "\<exists>d'. delta_log_prob_mass d delta = Inr d' \<and> normalized d' \<and> invariant d'"
    if "normalized d" "length delta = size_dd d" "list_all is_Fin delta"
    using delta_normalized [OF that] normalized_invariant by blast
  have c: "\<exists>d'. set_uniform d n = Inr d' \<and> normalized d' \<and> invariant d'" if "0 < n"
    using set_uniform_normalized [OF that, of d] normalized_invariant by blast
  have e: "\<exists>h'. from_distribution h this src n us = Inr h' \<and> normalized (h' this) \<and>
         invariant (h' this)"
    if "normalized (h src)" "0 < n" "list_all unit_draw (map us [0..<n])"
  proof -
    let ?new = "map (\<lambda>i. locations (h src) ! lower_bound (cumul_distr (h src)) (us i)) [0..<n]"
    from from_distribution_Inr [where h = h and src = src and this = this, OF that] obtain d' where
      d': "normalized d'" "size_dd d' = n"
        "from_distribution h this src n us = Inr (h(this := d'\<lparr>locations := ?new\<rparr>))"
      by blast
    have "normalized (d'\<lparr>locations := ?new\<rparr>)"
      using d'(1) by (rule normalized_locations) (simp add: d'(2))
    then show ?thesis
      unfolding d'(3) using normalized_invariant by auto
  qed
  show ?thesis using a b c e by blast
qed

theorem mutations_keep_invariant_witness:
  "[Fin 0, Fin (ln 3)] \<noteq> [] \<and> list_all is_Fin [Fin 0, Fin (ln 3)] \<and>
   (\<exists>d'. log_unnormalized_prob_mass four_particles [Fin 0, Fin (ln 3)] = Inr d' \<and> invariant d') \<and>
   normalized four_particles \<and> length [Fin 0, Fin 1, Fin 2, Fin 3] = size_dd four_particles \<and>
   list_all is_Fin [Fin 0, Fin 1, Fin 2, Fin 3] \<and>
   (\<exists>d'. delta_log_prob_mass four_particles [Fin 0, Fin 1, Fin 2, Fin 3] = Inr d' \<and> invariant d') \<and>
   (0::nat) < 4 \<and>
   (\<exists>d'. set_uniform four_particles 4 = Inr d' \<and> invariant d') \<and>
   normalized ((\<lambda>r. four_particles) 0) \<and>
   list_all unit_draw (map resampling_draws [0..<4]) \<and>
   (\<exists>h'. from_distribution (\<lambda>r. four_particles) 0 0 4 resampling_draws = Inr h' \<and>
      invariant (h' 0))"
proof -
  have n: "normalized four_particles" by (rule four_particles_normalized)
  have u: "list_all unit_draw (map resampling_draws [0..<4])"
    by (simp add: upt_4 unit_draw_def resampling_draws_def)
  have s: "length [Fin 0, Fin 1, Fin 2, Fin 3] = size_dd four_particles"
    by (simp add: size_dd_def four_particles_def)
  show ?thesis
    using n u s
      mutations_keep_invariant [where v = "[Fin 0, Fin (ln 3)]" and d = four_particles
        and delta = "[Fin 0, Fin 1, Fin 2, Fin 3]" and n = 4 and h = "\<lambda>r. four_particles"
        and src = 0 and this = 0 and us = resampling_draws]
    by auto
qed

text \<open>
  C4, as stated, fails: when every particle of a uniform pair receives the log-likelihood
  \<open>-\<infinity>\<close>, \<^verbatim>\<open>delta_log_prob_mass\<close> returns a belief whose weights are NaN and do not sum to
  one.
\<close>

theorem zero_likelihood_breaks_invariant:
  "delta_log_prob_mass (uniform_pair 10 20) [NInf, NInf] =
     Inr \<lparr> locations = [10, 20], log_prob_mass = [NaN, NaN], prob_mass = [NaN, NaN],
           cumul_distr = [NaN, NaN] \<rparr> \<and>
   \<not> invariant \<lparr> locations = [10, 20 :: real], log_prob_mass = [NaN, NaN],
                 prob_mass = [NaN, NaN], cumul_distr = [NaN, NaN] \<rparr>"
  by (simp add: delta_log_prob_mass_def cwise_def uniform_pair_def log_unnormalized_prob_mass_def
      maxCoeff_def std_max_def fp_sum_def fp_sub_def compute_cdf_def resize_def Let_def
      invariant_def)

text \<open>
  The constructor assigns three of the four members: a freshly constructed belief has one
  location, one log-weight, one cumulative weight and no weight, and its divergence from
  uniform cannot be computed.
\<close>

lemma constructor_leaves_prob_mass_empty:
  "length (locations (DiscreteDistribution z)) = 1 \<and>
   length (log_prob_mass (DiscreteDistribution z)) = 1 \<and>
   length (cumul_distr (DiscreteDistribution z)) = 1 \<and>
   length (prob_mass (DiscreteDistribution z)) = 0 \<and>
   \<not> invariant (DiscreteDistribution z) \<and>
   kl_given_uniform (DiscreteDistribution z) = Inl SizeMismatch"
  by (simp add: DiscreteDistribution_def invariant_def kl_given_uniform_def entropy_def cwise_def)

section \<open>The example beliefs are reachable\<close>

lemma uniform_pair_reachable: "set_uniform (uniform_pair a b) 2 = Inr (uniform_pair a b)"
  by (simp add: set_uniform_2) (simp add: uniform_pair_def resize_def)

lemma skewed_particles_reachable:
  "log_unnormalized_prob_mass (uniform_pair 10 20) [Fin (ln 3), Fin 0] = Inr skewed_particles"
  using lupm_Fin [of "[ln 3, 0]" "uniform_pair 10 20"]
  by (simp add: softmax_def upt_2 skewed_particles_def uniform_pair_def resize_def ln_div)

lemma four_particles_reachable: "set_uniform four_particles 4 = Inr four_particles"
proof -
  have "replicate 4 (Fin 0) = map Fin [0, 0, 0, 0]" by (simp add: eval_nat_numeral)
  then show ?thesis
    unfolding set_uniform_def using lupm_Fin [of "[0, 0, 0, 0]" four_particles]
    by (simp add: softmax_def upt_4 four_particles_def resize_def ln_div)
qed

section \<open>Sampling from a cumulative table\<close>


lemma normalized_cdf_table: "normalized d \<Longrightarrow> cdf_table d"
  unfolding cdf_table_def using normalized_cumul(1-4) [of d] by blast



















lemma zero_weight_pair_reachable:
  "delta_log_prob_mass (uniform_pair 10 20) [Fin 0, NInf] = Inr zero_weight_pair"
  by (simp add: delta_log_prob_mass_def cwise_def uniform_pair_def log_unnormalized_prob_mass_def
      maxCoeff_def std_max_def fp_sum_def fp_sub_def compute_cdf_def resize_def Let_def
      zero_weight_pair_def)


lemma fresh_table: "cdf_table (DiscreteDistribution z)"
  by (simp add: cdf_table_def DiscreteDistribution_def)


section \<open>The resampling decision\<close>








text \<open>
  A freshly constructed belief has no weights: its divergence cannot be computed and
  \<^verbatim>\<open>update\<close> fails on it.
\<close>

lemma fresh_belief_update:
  "update f ((\<lambda>r. DiscreteDistribution z)) 1 y 2 us = Inl SizeMismatch"
  by (simp add: update_def resample_step_def kl_given_uniform_def entropy_def cwise_def
      DiscreteDistribution_def)

end
